theory Spec2Isabelle
  imports Complex_Main "HOL-Library.Sublist" "HOL-Library.AList"
begin

section \<open>ResearchMemory: data model\<close>

text \<open>
  The development embeds \<^verbatim>\<open>src/core/memory.py\<close> (class \<^verbatim>\<open>ResearchMemory\<close>).
  Python strings are modelled as \<^typ>\<open>string\<close>, Python floats (response times, epoch
  seconds) as exact \<^typ>\<open>real\<close> numbers, counters as \<^typ>\<open>nat\<close>. The clock
  (\<^verbatim>\<open>time.time()\<close>, \<^verbatim>\<open>datetime.now()\<close>) and the fingerprint
  (\<^verbatim>\<open>hashlib.md5(...).hexdigest()\<close>) are library calls; they enter every
  operation as explicit arguments, and a call reads the clock once. File reads and
  writes are assumed to succeed, and a single caller is assumed, as the source does.
\<close>

text \<open>
  One entry of \<^verbatim>\<open>self.patterns\<close> (the dict built in \<^verbatim>\<open>remember_query\<close>); the
  field \<open>method_used\<close> is the dict key \<^verbatim>\<open>"method"\<close>.
\<close>

record pattern =
  query :: string
  query_type :: string
  method_used :: string
  success :: bool
  response_time :: real
  citations_count :: int
  timestamp :: string

text \<open>The dict \<^verbatim>\<open>self.stats\<close>.\<close>

record stats =
  total_queries :: nat
  cache_hits :: nat
  patterns_learned :: nat
  avg_response_time :: real

text \<open>The dict \<^verbatim>\<open>cached_data\<close> of \<^verbatim>\<open>cache_result\<close>; the payload is opaque.\<close>

record 'r cached =
  cached_query :: string
  cached_result :: 'r
  cached_timestamp :: real
  cached_hits :: nat

text \<open>
  The object state: the pattern list, the in-memory cache dict (keyed by fingerprint),
  the statistics, and the three durable stores: the cache directory (one file per
  fingerprint, an association list from file stem to content), \<^verbatim>\<open>patterns.json\<close>
  and \<^verbatim>\<open>stats.json\<close> (absent until the first checkpoint).
\<close>

record 'r memory =
  patterns :: "pattern list"
  cache :: "string \<rightharpoonup> 'r cached"
  stats :: stats
  cache_dir :: "(string \<times> 'r cached) list"
  patterns_file :: "pattern list option"
  stats_file :: "stats option"

definition load_stats_default :: stats where
  "load_stats_default =
     \<lparr>total_queries = 0, cache_hits = 0, patterns_learned = 0, avg_response_time = 0\<rparr>"

text \<open>The state after \<^verbatim>\<open>__init__\<close> on empty directories.\<close>

definition fresh :: "'r memory" where
  "fresh = \<lparr>patterns = [], cache = Map.empty, stats = load_stats_default,
            cache_dir = [], patterns_file = None, stats_file = None\<rparr>"

section \<open>Query classifier\<close>

text \<open>
  \<^verbatim>\<open>str.lower()\<close> on the ASCII letters; every other character is kept. The keywords
  of the classifier are ASCII, so only the ASCII letters of a query decide a match.
\<close>

definition lower_char :: "char \<Rightarrow> char" where
  "lower_char c =
     (case map_of (zip ''ABCDEFGHIJKLMNOPQRSTUVWXYZ'' ''abcdefghijklmnopqrstuvwxyz'') c of
        Some d \<Rightarrow> d
      | None \<Rightarrow> c)"

definition lower :: "string \<Rightarrow> string" where
  "lower s = map lower_char s"

text \<open>Python's \<^verbatim>\<open>word in text\<close> on strings: scan for a position where the word starts.\<close>

fun starts_with :: "string \<Rightarrow> string \<Rightarrow> bool" where
  "starts_with [] t = True"
| "starts_with (c # w) [] = False"
| "starts_with (c # w) (d # t) = (c = d \<and> starts_with w t)"

fun str_in :: "string \<Rightarrow> string \<Rightarrow> bool" where
  "str_in w [] = (w = [])"
| "str_in w (d # t) = (starts_with w (d # t) \<or> str_in w t)"

text \<open>\<^verbatim>\<open>any(word in query_lower for word in words)\<close>.\<close>

fun any_word_in :: "string list \<Rightarrow> string \<Rightarrow> bool" where
  "any_word_in [] t = False"
| "any_word_in (w # ws) t = (str_in w t \<or> any_word_in ws t)"

definition classify_query :: "string \<Rightarrow> string" where
  "classify_query q =
     (let query_lower = lower q in
      if any_word_in [''landscape'', ''comprehensive'', ''analyze'', ''comparison''] query_lower
      then ''comprehensive_analysis''
      else if any_word_in [''how to'', ''implement'', ''code'', ''example''] query_lower
      then ''technical_implementation''
      else if any_word_in [''what is'', ''define'', ''explain''] query_lower
      then ''conceptual_explanation''
      else if any_word_in [''best'', ''recommend'', ''should''] query_lower
      then ''recommendation''
      else ''general_research'')"

text \<open>
  The classifier as the specification words it: a closed enumeration of five query
  types and a priority table of keyword sets, scanned in order, the first set with a
  keyword occurring as a contiguous substring of the lower-cased query deciding.
\<close>

definition QueryType :: "string list" where
  "QueryType = [''comprehensive_analysis'', ''technical_implementation'',
                ''conceptual_explanation'', ''recommendation'', ''general_research'']"

definition priority_table :: "(string list \<times> string) list" where
  "priority_table =
     [([''landscape'', ''comprehensive'', ''analyze'', ''comparison''], ''comprehensive_analysis''),
      ([''how to'', ''implement'', ''code'', ''example''], ''technical_implementation''),
      ([''what is'', ''define'', ''explain''], ''conceptual_explanation''),
      ([''best'', ''recommend'', ''should''], ''recommendation'')]"

definition classify_spec :: "string \<Rightarrow> string" where
  "classify_spec q =
     (case find (\<lambda>(kws, ty). \<exists>w \<in> set kws. sublist w (lower q)) priority_table of
        Some (kws, ty) \<Rightarrow> ty
      | None \<Rightarrow> ''general_research'')"

section \<open>Pattern recorder and learner\<close>

text \<open>\<^verbatim>\<open>_learn_from_pattern\<close>: runs after the new pattern has been appended.\<close>

definition learn_from_pattern :: "pattern \<Rightarrow> 'r memory \<Rightarrow> 'r memory" where
  "learn_from_pattern p s =
     (let similar_patterns =
            filter (\<lambda>p'. query_type p' = query_type p \<and> method_used p' = method_used p \<and> success p')
              (patterns s)
      in if length similar_patterns \<ge> 3
         then s\<lparr>stats := (stats s)\<lparr>patterns_learned := patterns_learned (stats s) + 1\<rparr>\<rparr>
         else s)"

definition save_patterns :: "'r memory \<Rightarrow> 'r memory" where
  "save_patterns s = s\<lparr>patterns_file := Some (patterns s)\<rparr>"

definition save_stats :: "'r memory \<Rightarrow> 'r memory" where
  "save_stats s = s\<lparr>stats_file := Some (stats s)\<rparr>"

text \<open>
  \<^verbatim>\<open>remember_query\<close>; \<open>now_iso\<close> is \<^verbatim>\<open>datetime.now().isoformat()\<close>. The steps
  follow the source: append, count the query, update the average (the branch on a stored
  average of zero included), learn on success, checkpoint on every fifth pattern.
\<close>

definition remember_query ::
  "string \<Rightarrow> 'r memory \<Rightarrow> string \<Rightarrow> string \<Rightarrow> bool \<Rightarrow> real \<Rightarrow> int \<Rightarrow> 'r memory" where
  "remember_query now_iso s q m ok rt cites =
     (let p = \<lparr>query = q, query_type = classify_query q, method_used = m, success = ok,
               response_time = rt, citations_count = cites, timestamp = now_iso\<rparr>;
          s1 = s\<lparr>patterns := patterns s @ [p]\<rparr>;
          s2 = s1\<lparr>stats := (stats s1)\<lparr>total_queries := total_queries (stats s1) + 1\<rparr>\<rparr>;
          s3 = (if avg_response_time (stats s2) = 0
                then s2\<lparr>stats := (stats s2)\<lparr>avg_response_time := rt\<rparr>\<rparr>
                else s2\<lparr>stats := (stats s2)\<lparr>avg_response_time :=
                        (avg_response_time (stats s2) * real (total_queries (stats s2) - 1) + rt)
                        / real (total_queries (stats s2))\<rparr>\<rparr>);
          s4 = (if ok then learn_from_pattern p s3 else s3)
      in if length (patterns s4) mod 5 = 0 then save_stats (save_patterns s4) else s4)"

section \<open>Suggestion engine\<close>

text \<open>A value of \<^verbatim>\<open>method_scores\<close> and of \<^verbatim>\<open>best_combos\<close>.\<close>

record score =
  count :: nat
  avg_time :: real

text \<open>
  Python dicts keep insertion order, and \<^verbatim>\<open>max\<close> over a dict walks its keys in that
  order; a dict built in a loop is an association list to which \<^const>\<open>AList.update\<close>
  appends a new key and in which it overwrites an old one in place.
\<close>

text \<open>One round of the counting loop over \<^verbatim>\<open>similar_patterns\<close>.\<close>

definition add_score :: "'k \<Rightarrow> real \<Rightarrow> ('k \<times> score) list \<Rightarrow> ('k \<times> score) list" where
  "add_score k rt scores =
     (let scores1 = (if map_of scores k = None
                     then AList.update k \<lparr>count = 0, avg_time = 0\<rparr> scores
                     else scores)
      in case map_of scores1 k of
           Some sc \<Rightarrow> AList.update k \<lparr>count = count sc + 1, avg_time = avg_time sc + rt\<rparr> scores1
         | None \<Rightarrow> scores1)"

fun count_methods :: "pattern list \<Rightarrow> (string \<times> score) list \<Rightarrow> (string \<times> score) list" where
  "count_methods [] scores = scores"
| "count_methods (p # ps) scores = count_methods ps (add_score (method_used p) (response_time p) scores)"

text \<open>The loop dividing every accumulated time by its count.\<close>

definition average_times :: "('k \<times> score) list \<Rightarrow> ('k \<times> score) list" where
  "average_times scores = map (\<lambda>(k, sc). (k, sc\<lparr>avg_time := avg_time sc / real (count sc)\<rparr>)) scores"

text \<open>
  \<^verbatim>\<open>max(iterable, key=...)\<close>: the running maximum is replaced only by a strictly
  larger key, so the first of several maximal elements is returned.
\<close>

fun py_max :: "('a \<Rightarrow> nat) \<Rightarrow> 'a \<Rightarrow> 'a list \<Rightarrow> 'a" where
  "py_max key best [] = best"
| "py_max key best (x # xs) = py_max key (if key x > key best then x else best) xs"

definition score_count :: "('k \<times> score) list \<Rightarrow> 'k \<Rightarrow> nat" where
  "score_count scores k = (case map_of scores k of Some sc \<Rightarrow> count sc | None \<Rightarrow> 0)"

text \<open>
  \<^verbatim>\<open>suggest_method\<close>; it only reads the state (and prints). The dict of scores has a
  key for every similar pattern, so the branch for an empty dict, where \<^verbatim>\<open>max\<close>
  would raise, is never taken.
\<close>

definition suggest_method :: "'r memory \<Rightarrow> string \<Rightarrow> string option" where
  "suggest_method s q =
     (if patterns s = [] then None
      else let qt = classify_query q;
               similar_patterns = filter (\<lambda>p. query_type p = qt \<and> success p) (patterns s)
           in if similar_patterns = [] then None
              else let method_scores = average_times (count_methods similar_patterns [])
                   in case map fst method_scores of
                        [] \<Rightarrow> None
                      | m # ms \<Rightarrow>
                          let best_method = py_max (score_count method_scores) m ms;
                              confidence = real (score_count method_scores best_method)
                                           / real (length similar_patterns)
                          in if confidence > 0.6 then Some best_method else None)"

section \<open>Cache store\<close>

text \<open>The second half of \<^verbatim>\<open>get_cached_result\<close>: the file named by the fingerprint.\<close>

definition check_file_cache :: "real \<Rightarrow> 'r memory \<Rightarrow> string \<Rightarrow> 'r option \<times> 'r memory" where
  "check_file_cache now s query_hash =
     (case map_of (cache_dir s) query_hash of
        Some c \<Rightarrow>
          if now - cached_timestamp c < 3600
          then (Some (cached_result c),
                s\<lparr>stats := (stats s)\<lparr>cache_hits := cache_hits (stats s) + 1\<rparr>,
                  cache := (cache s)(query_hash \<mapsto> c)\<rparr>)
          else (None, s)
      | None \<Rightarrow> (None, s))"

text \<open>
  \<^verbatim>\<open>get_cached_result\<close>: the in-memory dict first; a missing or stale in-memory
  entry falls through to the file. \<open>md5\<close> is the fingerprint function, \<open>now\<close> the clock.
\<close>

definition get_cached_result ::
  "(string \<Rightarrow> string) \<Rightarrow> real \<Rightarrow> 'r memory \<Rightarrow> string \<Rightarrow> 'r option \<times> 'r memory" where
  "get_cached_result md5 now s q =
     (let query_hash = md5 q in
      case cache s query_hash of
        Some c \<Rightarrow>
          if now - cached_timestamp c < 3600
          then (Some (cached_result c),
                s\<lparr>stats := (stats s)\<lparr>cache_hits := cache_hits (stats s) + 1\<rparr>,
                  cache := (cache s)(query_hash \<mapsto> c\<lparr>cached_hits := cached_hits c + 1\<rparr>)\<rparr>)
          else check_file_cache now s query_hash
      | None \<Rightarrow> check_file_cache now s query_hash)"

definition cache_result ::
  "(string \<Rightarrow> string) \<Rightarrow> real \<Rightarrow> 'r memory \<Rightarrow> string \<Rightarrow> 'r \<Rightarrow> 'r memory" where
  "cache_result md5 now s q r =
     (let query_hash = md5 q;
          cached_data = \<lparr>cached_query = q, cached_result = r, cached_timestamp = now,
                         cached_hits = 0\<rparr>
      in s\<lparr>cache := (cache s)(query_hash \<mapsto> cached_data),
           cache_dir := AList.update query_hash cached_data (cache_dir s)\<rparr>)"

text \<open>
  \<^verbatim>\<open>cleanup_volatile\<close>: the loop over the directory listing, each item a file name
  with the content read from it; \<^verbatim>\<open>unlink\<close> deletes by name. The clock is read
  once for the sweep.
\<close>

fun cleanup_loop ::
  "real \<Rightarrow> int \<Rightarrow> (string \<times> 'r cached) list \<Rightarrow> (string \<times> 'r cached) list \<Rightarrow> nat
     \<Rightarrow> (string \<times> 'r cached) list \<times> nat" where
  "cleanup_loop now max_age_hours [] dir cleaned = (dir, cleaned)"
| "cleanup_loop now max_age_hours ((cache_file, data) # files) dir cleaned =
     (let age = (now - cached_timestamp data) / 3600
      in if age > of_int max_age_hours
         then cleanup_loop now max_age_hours files (AList.delete cache_file dir) (cleaned + 1)
         else cleanup_loop now max_age_hours files dir cleaned)"

definition cleanup_volatile :: "real \<Rightarrow> 'r memory \<Rightarrow> int \<Rightarrow> nat \<times> 'r memory" where
  "cleanup_volatile now s max_age_hours =
     (case cleanup_loop now max_age_hours (cache_dir s) (cache_dir s) 0 of
        (dir, cleaned) \<Rightarrow> (cleaned, s\<lparr>cache_dir := dir\<rparr>))"

section \<open>Insight aggregator\<close>

text \<open>
  The dict returned by \<^verbatim>\<open>get_insights\<close> is an association list from its keys to
  values. The two rates the source formats into strings are kept as numbers, and a
  combination key, printed by the source as query type, arrow, method, is the pair.
\<close>

datatype insight =
    Str string
  | Int_of nat
  | Num real
  | Counts "(string \<times> nat) list"
  | Combos "((string \<times> string) \<times> score) list"

text \<open>\<^verbatim>\<open>d[k] = d.get(k, 0) + 1\<close>.\<close>

definition incr :: "'k \<Rightarrow> ('k \<times> nat) list \<Rightarrow> ('k \<times> nat) list" where
  "incr k d = AList.update k ((case map_of d k of Some n \<Rightarrow> n | None \<Rightarrow> 0) + 1) d"

text \<open>The first loop: query types of all patterns, methods of the successful ones.\<close>

fun analyze_patterns ::
  "pattern list \<Rightarrow> (string \<times> nat) list \<times> (string \<times> nat) list
     \<Rightarrow> (string \<times> nat) list \<times> (string \<times> nat) list" where
  "analyze_patterns [] (query_types, method_preferences) = (query_types, method_preferences)"
| "analyze_patterns (p # ps) (query_types, method_preferences) =
     analyze_patterns ps
       (incr (query_type p) query_types,
        if success p then incr (method_used p) method_preferences else method_preferences)"

text \<open>The second loop: counts and summed times per successful combination.\<close>

fun count_combos ::
  "pattern list \<Rightarrow> ((string \<times> string) \<times> score) list \<Rightarrow> ((string \<times> string) \<times> score) list" where
  "count_combos [] best_combos = best_combos"
| "count_combos (p # ps) best_combos =
     count_combos ps
       (if success p then add_score (query_type p, method_used p) (response_time p) best_combos
        else best_combos)"

text \<open>
  \<^verbatim>\<open>sorted(items, key=count, reverse=True)[:3]\<close>: a stable sort, descending in the
  count, cut to three.
\<close>

definition top3 :: "('k \<times> score) list \<Rightarrow> ('k \<times> score) list" where
  "top3 items = take 3 (sort_key (\<lambda>(k, sc). - int (count sc)) items)"

definition get_insights :: "'r memory \<Rightarrow> (string \<times> insight) list" where
  "get_insights s =
     (if patterns s = [] then [(''message'', Str ''No patterns learned yet'')]
      else case analyze_patterns (patterns s) ([], []) of
        (query_types, method_preferences) \<Rightarrow>
          let best_combos = average_times (count_combos (patterns s) [])
          in [(''total_patterns'', Int_of (length (patterns s))),
              (''patterns_learned'', Int_of (patterns_learned (stats s))),
              (''cache_hit_rate'',
                 Num (real (cache_hits (stats s)) / real (max 1 (total_queries (stats s))) * 100)),
              (''query_types'', Counts query_types),
              (''method_preferences'', Counts method_preferences),
              (''best_combinations'', Combos (top3 best_combos)),
              (''avg_response_time'', Num (avg_response_time (stats s)))])"

section \<open>Sequences of operations\<close>

text \<open>
  The caller-facing surface as a datatype of calls, each with the clock reading it
  makes, and the state a call leaves behind.
\<close>

datatype 'r op =
    Remember string string string bool real int
  | Suggest string
  | GetCachedResult real string
  | CacheResult real string 'r
  | GetInsights
  | Cleanup real int

fun step :: "(string \<Rightarrow> string) \<Rightarrow> 'r memory \<Rightarrow> 'r op \<Rightarrow> 'r memory" where
  "step md5 s (Remember now_iso q m ok rt cites) = remember_query now_iso s q m ok rt cites"
| "step md5 s (Suggest q) = (case suggest_method s q of _ \<Rightarrow> s)"
| "step md5 s (GetCachedResult now q) = snd (get_cached_result md5 now s q)"
| "step md5 s (CacheResult now q r) = cache_result md5 now s q r"
| "step md5 s GetInsights = (case get_insights s of _ \<Rightarrow> s)"
| "step md5 s (Cleanup now max_age_hours) = snd (cleanup_volatile now s max_age_hours)"

fun run :: "(string \<Rightarrow> string) \<Rightarrow> 'r memory \<Rightarrow> 'r op list \<Rightarrow> 'r memory" where
  "run md5 s [] = s"
| "run md5 s (c # cs) = run md5 (step md5 s c) cs"

fun is_remember :: "'r op \<Rightarrow> bool" where
  "is_remember (Remember now_iso q m ok rt cites) = True"
| "is_remember c = False"

section \<open>Notions of the specification\<close>

text \<open>The successful records of the query's type.\<close>

definition successful_of_type :: "'r memory \<Rightarrow> string \<Rightarrow> pattern list" where
  "successful_of_type s q = filter (\<lambda>p. query_type p = classify_query q \<and> success p) (patterns s)"

text \<open>The number of records in \<open>ps\<close> that used method \<open>m\<close>.\<close>

definition method_count :: "string \<Rightarrow> pattern list \<Rightarrow> nat" where
  "method_count m ps = length (filter (\<lambda>p. method_used p = m) ps)"

text \<open>
  \<open>b\<close> is the method selected among \<open>ps\<close>: it occurs, no method occurs more often, and
  every method met before the first record of \<open>b\<close> occurs strictly less often.
\<close>

definition selected_method :: "pattern list \<Rightarrow> string \<Rightarrow> bool" where
  "selected_method ps b \<longleftrightarrow>
     b \<in> method_used ` set ps \<and>
     (\<forall>m. method_count m ps \<le> method_count b ps) \<and>
     (\<forall>m \<in> method_used ` set (takeWhile (\<lambda>p. method_used p \<noteq> b) ps). method_count m ps < method_count b ps)"

text \<open>The order in which a loop first meets the keys it inserts into a dict holding \<open>ks\<close>.\<close>

fun first_seen :: "'a list \<Rightarrow> 'a list \<Rightarrow> 'a list" where
  "first_seen ks [] = ks"
| "first_seen ks (x # xs) = first_seen (if x \<in> set ks then ks else ks @ [x]) xs"

text \<open>
  The stored average is the arithmetic mean of the recorded response times: the query
  counter equals the number of records, the average times that number is their sum, a
  fresh average is zero, and every recorded time is positive.
\<close>

definition mean_inv :: "'r memory \<Rightarrow> bool" where
  "mean_inv s \<longleftrightarrow>
     total_queries (stats s) = length (patterns s) \<and>
     avg_response_time (stats s) * real (length (patterns s))
       = sum_list (map response_time (patterns s)) \<and>
     (patterns s = [] \<longrightarrow> avg_response_time (stats s) = 0) \<and>
     (\<forall>p \<in> set (patterns s). 0 < response_time p)"

text \<open>The response time a call records, if it records one.\<close>

fun recorded_time :: "'r op \<Rightarrow> real option" where
  "recorded_time (Remember now_iso q m ok rt cites) = Some rt"
| "recorded_time c = None"

text \<open>
  The two cache stores agree: an in-memory entry and the file of the same fingerprint
  carry the same result and the same timestamp (the hit counts may differ).
\<close>

definition coherent :: "'r memory \<Rightarrow> bool" where
  "coherent s \<longleftrightarrow>
     (\<forall>k c d. cache s k = Some c \<and> map_of (cache_dir s) k = Some d \<longrightarrow>
        cached_result c = cached_result d \<and> cached_timestamp c = cached_timestamp d)"

text \<open>
  Under fingerprint \<open>k\<close> the in-memory dict holds the result \<open>r\<close> stored at time \<open>t\<close>,
  and the file of that name, if there is one, holds the same.
\<close>

definition holds_result :: "string \<Rightarrow> 'r \<Rightarrow> real \<Rightarrow> 'r memory \<Rightarrow> bool" where
  "holds_result k r t s \<longleftrightarrow>
     (\<exists>c. cache s k = Some c \<and> cached_result c = r \<and> cached_timestamp c = t) \<and>
     (\<forall>d. map_of (cache_dir s) k = Some d \<longrightarrow> cached_result d = r \<and> cached_timestamp d = t)"

text \<open>A call that stores a result under fingerprint \<open>k\<close>.\<close>

fun caches_under :: "(string \<Rightarrow> string) \<Rightarrow> string \<Rightarrow> 'r op \<Rightarrow> bool" where
  "caches_under md5 k (CacheResult now q r) = (md5 q = k)"
| "caches_under md5 k c = False"

section \<open>Example states\<close>

text \<open>A successful \<^verbatim>\<open>technical_implementation\<close> record that used method \<open>m\<close>.\<close>

definition tech :: "string \<Rightarrow> pattern" where
  "tech m = \<lparr>query = ''code'', query_type = ''technical_implementation'', method_used = m,
             success = True, response_time = 1, citations_count = 0, timestamp = ''t''\<rparr>"

text \<open>The state after loading a pattern file: two records for A and one for B.\<close>

definition log_2_of_3 :: "unit memory" where
  "log_2_of_3 = fresh\<lparr>patterns := [tech ''B'', tech ''A'', tech ''A'']\<rparr>"

text \<open>Three records for A out of five.\<close>

definition log_3_of_5 :: "unit memory" where
  "log_3_of_5 = fresh\<lparr>patterns := [tech ''A'', tech ''B'', tech ''A'', tech ''B'', tech ''A'']\<rparr>"

text \<open>The state after a restart: one cache file written at time 0, nothing in memory.\<close>

definition restarted :: "nat memory" where
  "restarted = fresh\<lparr>cache_dir := [(''q'', \<lparr>cached_query = ''q'', cached_result = 7,
                                          cached_timestamp = 0, cached_hits = 0\<rparr>)]\<rparr>"

text \<open>A cache directory with a file written at time 0 and one written at time 7200.\<close>

definition two_files :: "nat memory" where
  "two_files = fresh\<lparr>cache_dir :=
     [(''old'', \<lparr>cached_query = ''a'', cached_result = 1, cached_timestamp = 0, cached_hits = 0\<rparr>),
      (''new'', \<lparr>cached_query = ''b'', cached_result = 2, cached_timestamp = 7200, cached_hits = 0\<rparr>)]\<rparr>"

text \<open>
  Two different queries with one MD5 digest, \<^verbatim>\<open>faad49866e9498fc1719f5289e7a0269\<close>,
  and a fingerprint function that is MD5 on these two queries (elsewhere it is
  the identity, which no statement below looks at).
\<close>

definition query_a :: string where
  "query_a = ''TEXTCOLLBYfGiJUETHQ4hAcKSMd5zYpgqf1YRDhkmxHkhPWptrkoyz28wnI9V0aHeAuaKnak''"

definition query_b :: string where
  "query_b = ''TEXTCOLLBYfGiJUETHQ4hEcKSMd5zYpgqf1YRDhkmxHkhPWptrkoyz28wnI9V0aHeAuaKnak''"

definition md5_on_pair :: "string \<Rightarrow> string" where
  "md5_on_pair q =
     (if q = query_a \<or> q = query_b then ''faad49866e9498fc1719f5289e7a0269'' else q)"

section \<open>Classifier: proofs\<close>

lemma starts_with_prefix: "starts_with w t = prefix w t"
  by (induction w t rule: starts_with.induct) simp_all

lemma str_in_sublist: "str_in w t = sublist w t"
proof (induction t)
  case Nil
  show ?case by simp
next
  case (Cons d t)
  then show ?case
    by (simp add: starts_with_prefix sublist_Cons_right)
qed

lemma any_word_in_iff: "any_word_in ws t = (\<exists>w \<in> set ws. sublist w t)"
  by (induction ws) (simp_all add: str_in_sublist)

text \<open>
  C2. \<^verbatim>\<open>_classify_query\<close> is a total function of the query text alone (it reads no
  object state, so equal texts give equal types); its value is always one of the five
  query types, and it is the value of the priority-ordered keyword scan over the
  lower-cased query, first match winning, \<^verbatim>\<open>general_research\<close> when nothing
  matches.
\<close>

theorem classify_query_total_priority:
  "classify_query q \<in> set QueryType \<and> classify_query q = classify_spec q"
  by (simp add: classify_query_def classify_spec_def priority_table_def QueryType_def
      any_word_in_iff Let_def del: any_word_in.simps)

theorem classify_query_total_priority_witness:
  "classify_spec ''Explain how to ANALYZE the best code'' = ''comprehensive_analysis'' \<and>
   classify_spec ''What is X?'' = ''conceptual_explanation'' \<and>
   classify_spec ''Hello'' = ''general_research''"
  using classify_query_total_priority [of "''Explain how to ANALYZE the best code''"]
    classify_query_total_priority [of "''What is X?''"]
    classify_query_total_priority [of "''Hello''"]
  by (simp add: classify_query_def lower_def lower_char_def)

section \<open>Recorder and learner: proofs\<close>

lemma patterns_learn_from_pattern: "patterns (learn_from_pattern p s) = patterns s"
  by (simp add: learn_from_pattern_def Let_def)

lemma patterns_remember_query:
  "patterns (remember_query now_iso s q m ok rt cites) =
     patterns s @ [\<lparr>query = q, query_type = classify_query q, method_used = m, success = ok,
                    response_time = rt, citations_count = cites, timestamp = now_iso\<rparr>]"
  by (simp add: remember_query_def Let_def save_stats_def save_patterns_def
      patterns_learn_from_pattern)

lemma stats_save: "stats (save_stats (save_patterns s)) = stats s"
  by (simp add: save_stats_def save_patterns_def)

lemma stats_learn_from_pattern:
  "stats (learn_from_pattern p s) =
     (stats s)\<lparr>patterns_learned :=
        (if 3 \<le> length (filter (\<lambda>p'. query_type p' = query_type p \<and> method_used p' = method_used p \<and> success p') (patterns s))
         then patterns_learned (stats s) + 1 else patterns_learned (stats s))\<rparr>"
  by (simp add: learn_from_pattern_def Let_def)

lemma stats_remember_query:
  "stats (remember_query now_iso s q m ok rt cites) =
     \<lparr>total_queries = total_queries (stats s) + 1,
      cache_hits = cache_hits (stats s),
      patterns_learned =
        (if ok \<and> 3 \<le> length (filter (\<lambda>p. query_type p = classify_query q \<and> method_used p = m \<and> success p)
                                 (patterns s)) + 1
         then patterns_learned (stats s) + 1 else patterns_learned (stats s)),
      avg_response_time =
        (if avg_response_time (stats s) = 0 then rt
         else (avg_response_time (stats s) * real (total_queries (stats s)) + rt)
              / real (total_queries (stats s) + 1))\<rparr>"
  unfolding remember_query_def Let_def
  by (simp add: stats_save stats_learn_from_pattern if_distrib [of stats] cong: if_cong)

text \<open>
  C6. A call of \<^verbatim>\<open>remember_query\<close> raises \<^verbatim>\<open>patterns_learned\<close> by exactly one
  when \<^verbatim>\<open>success\<close> is true and, after the append, at least three successful records
  share the new record's query type and method; otherwise the counter keeps its value.
\<close>

theorem remember_query_learns:
  "patterns_learned (stats (remember_query now_iso s q m ok rt cites)) =
     patterns_learned (stats s) +
       (if ok \<and> 3 \<le> length (filter (\<lambda>p. query_type p = classify_query q \<and> method_used p = m \<and> success p)
                                (patterns (remember_query now_iso s q m ok rt cites)))
        then 1 else 0)"
  by (simp add: stats_remember_query patterns_remember_query)

text \<open>
  From any state, \<open>n\<close> successful records of one query and method in a row: the counter
  rises once for each record at which the count of that pair stands at three or more.
\<close>

lemma learned_replicate:
  "patterns_learned (stats (run md5 s (replicate n (Remember now_iso q m True rt cites)))) =
     patterns_learned (stats s) +
       ((length (filter (\<lambda>p. query_type p = classify_query q \<and> method_used p = m \<and> success p) (patterns s)) + n - 2)
        - (length (filter (\<lambda>p. query_type p = classify_query q \<and> method_used p = m \<and> success p) (patterns s)) - 2))"
proof (induction n arbitrary: s)
  case 0
  show ?case by simp
next
  case (Suc n)
  let ?k = "\<lambda>s' :: 'a memory. length (filter (\<lambda>p. query_type p = classify_query q \<and> method_used p = m \<and> success p) (patterns s'))"
  let ?s1 = "remember_query now_iso s q m True rt cites"
  have k1: "?k ?s1 = ?k s + 1"
    by (simp add: patterns_remember_query)
  have p1: "patterns_learned (stats ?s1) = patterns_learned (stats s) + (if 3 \<le> ?k s + 1 then 1 else 0)"
    by (simp add: stats_remember_query)
  have "patterns_learned (stats (run md5 s (replicate (Suc n) (Remember now_iso q m True rt cites)))) =
        patterns_learned (stats ?s1) + ((?k ?s1 + n - 2) - (?k ?s1 - 2))"
    using Suc.IH [of ?s1] by simp
  also have "\<dots> = patterns_learned (stats s) + ((?k s + Suc n - 2) - (?k s - 2))"
    unfolding k1 p1 by auto
  finally show ?case .
qed

lemma learned_from_fresh:
  "patterns_learned (stats (run md5 fresh (replicate n (Remember now_iso q m True rt cites)))) = n - 2"
  using learned_replicate [of md5 fresh n now_iso q m rt cites]
  by (simp add: fresh_def load_stats_default_def)

theorem remember_query_learns_witness:
  "patterns_learned (stats (run id (fresh :: unit memory)
      [Remember ''t'' ''What is X?'' ''A'' True 5 0,
       Remember ''t'' ''What is X?'' ''A'' True 5 0,
       Remember ''t'' ''What is X?'' ''A'' True 5 0])) = 1"
proof -
  let ?p = "\<lparr>query = ''What is X?'', query_type = ''conceptual_explanation'', method_used = ''A'',
            success = True, response_time = 5, citations_count = 0, timestamp = ''t''\<rparr>"
  let ?s1 = "remember_query ''t'' (fresh :: unit memory) ''What is X?'' ''A'' True 5 0"
  let ?s2 = "remember_query ''t'' ?s1 ''What is X?'' ''A'' True 5 0"
  have c: "classify_query ''What is X?'' = ''conceptual_explanation''"
    by (simp add: classify_query_def lower_def lower_char_def)
  have p1: "patterns ?s1 = [?p]"
    by (simp add: patterns_remember_query fresh_def c)
  have l1: "patterns_learned (stats ?s1) = 0"
    by (simp add: stats_remember_query fresh_def load_stats_default_def)
  have p2: "patterns ?s2 = [?p, ?p]"
    unfolding patterns_remember_query [of _ ?s1] p1 c by simp
  have l2: "patterns_learned (stats ?s2) = 0"
    unfolding stats_remember_query [of _ ?s1] p1 l1 c by simp
  have "patterns_learned (stats (remember_query ''t'' ?s2 ''What is X?'' ''A'' True 5 0)) = 1"
    using remember_query_learns [of "''t''" ?s2 "''What is X?''" "''A''" True 5 0]
    unfolding patterns_remember_query [of _ ?s2] p2 l2 c by simp
  then show ?thesis by simp
qed

section \<open>Running average: proofs\<close>

text \<open>
  C5. The stored average after a sequence of recorded response times, against their
  arithmetic mean: recording the times 0 and 10 from a fresh state, with any queries,
  methods and outcomes, leaves a stored average of 10, while the mean is 5. The branch
  of \<^verbatim>\<open>remember_query\<close> on a stored average of zero overwrites the average with the
  new response time whatever the number of queries counted so far.
\<close>

theorem remember_query_zero_average:
  "avg_response_time (stats (remember_query ''t2''
       (remember_query ''t1'' (fresh :: unit memory) ''q'' ''A'' True 0 0) ''q'' ''A'' True 10 0)) = 10 \<and>
   avg_response_time (stats (remember_query ''t2''
       (remember_query ''t1'' (fresh :: unit memory) ''q'' ''A'' True 0 0) ''q'' ''A'' True 10 0))
     \<noteq> sum_list [0, 10] / real (length [0, 10 :: real])"
  by (simp add: stats_remember_query fresh_def load_stats_default_def)

text \<open>The times 10, 20, 30 recorded from a fresh state leave a stored average of 20.\<close>

lemma running_average_10_20_30:
  "avg_response_time (stats (remember_query t3 (remember_query t2
       (remember_query t1 fresh q1 m1 ok1 10 c1) q2 m2 ok2 20 c2) q3 m3 ok3 30 c3)) = 20"
  by (simp add: stats_remember_query fresh_def load_stats_default_def)

text \<open>
  Where the stored average is not zero, or nothing has been counted yet, one call
  follows the rule \<open>avg' = (avg * (n - 1) + response_time) / n\<close> with \<open>n\<close> the new count.
\<close>

lemma avg_rule_nonzero:
  assumes "avg_response_time (stats s) \<noteq> 0 \<or> total_queries (stats s) = 0"
  shows "avg_response_time (stats (remember_query now_iso s q m ok rt cites)) =
     (avg_response_time (stats s) * real (total_queries (stats (remember_query now_iso s q m ok rt cites)) - 1) + rt)
     / real (total_queries (stats (remember_query now_iso s q m ok rt cites)))"
  using assms by (auto simp add: stats_remember_query)

text \<open>
  With positive response times only, the stored average is their mean after any
  sequence of calls from a fresh state.
\<close>

lemma sum_list_pos: "(\<forall>x \<in> set xs. 0 < (x::real)) \<Longrightarrow> xs \<noteq> [] \<Longrightarrow> 0 < sum_list xs"
  by (induction xs) (auto simp: add_pos_nonneg sum_list_nonneg less_imp_le)

lemma mean_inv_fresh: "mean_inv fresh"
  by (simp add: mean_inv_def fresh_def load_stats_default_def)

lemma mean_inv_remember_query:
  assumes "mean_inv s" and "0 < rt"
  shows "mean_inv (remember_query now_iso s q m ok rt cites)"
proof (cases "patterns s = []")
  case True
  with assms show ?thesis
    by (simp add: mean_inv_def stats_remember_query patterns_remember_query)
next
  case False
  have "0 < sum_list (map response_time (patterns s))"
    using assms(1) False by (intro sum_list_pos) (auto simp: mean_inv_def)
  then have nz: "avg_response_time (stats s) \<noteq> 0"
    using assms(1) by (auto simp: mean_inv_def)
  show ?thesis
    using assms nz by (simp add: mean_inv_def stats_remember_query patterns_remember_query field_simps)
qed

lemma mean_inv_step:
  assumes "mean_inv s" and "\<forall>rt. recorded_time c = Some rt \<longrightarrow> 0 < rt"
  shows "mean_inv (step md5 s c)"
proof (cases c)
  case (Remember now_iso q m ok rt cites)
  with assms show ?thesis by (simp add: mean_inv_remember_query)
next
  case (GetCachedResult now q)
  with assms(1) show ?thesis
    by (auto simp add: mean_inv_def get_cached_result_def check_file_cache_def Let_def
        split: option.splits)
next
  case (CacheResult now q r)
  with assms(1) show ?thesis by (simp add: mean_inv_def cache_result_def Let_def)
next
  case (Cleanup now h)
  with assms(1) show ?thesis by (simp add: mean_inv_def cleanup_volatile_def split: prod.splits)
qed (use assms(1) in simp_all)

lemma mean_inv_run:
  "mean_inv s \<Longrightarrow> \<forall>c \<in> set cs. \<forall>rt. recorded_time c = Some rt \<longrightarrow> 0 < rt \<Longrightarrow> mean_inv (run md5 s cs)"
  by (induction cs arbitrary: s) (simp_all add: mean_inv_step)

lemma running_mean_positive:
  assumes "\<forall>c \<in> set cs. \<forall>rt. recorded_time c = Some rt \<longrightarrow> 0 < rt"
    and "patterns (run md5 fresh cs) \<noteq> []"
  shows "avg_response_time (stats (run md5 fresh cs)) =
     sum_list (map response_time (patterns (run md5 fresh cs))) / real (length (patterns (run md5 fresh cs)))"
proof -
  have "mean_inv (run md5 (fresh :: 'a memory) cs)"
    using mean_inv_fresh assms(1) by (rule mean_inv_run)
  with assms(2) show ?thesis
    by (simp add: mean_inv_def field_simps)
qed

section \<open>Suggestion engine: proofs\<close>

lemma set_first_seen: "set (first_seen ks xs) = set ks \<union> set xs"
  by (induction ks xs rule: first_seen.induct) auto

lemma distinct_first_seen: "distinct ks \<Longrightarrow> distinct (first_seen ks xs)"
  by (induction ks xs rule: first_seen.induct) auto

lemma takeWhile_first_seen_in:
  "b \<in> set ks \<Longrightarrow> takeWhile (\<lambda>x. x \<noteq> b) (first_seen ks xs) = takeWhile (\<lambda>x. x \<noteq> b) ks"
  by (induction ks xs rule: first_seen.induct) (auto simp: takeWhile_append1)

lemma takeWhile_neq_all: "b \<notin> set ks \<Longrightarrow> takeWhile (\<lambda>x. x \<noteq> b) ks = ks"
  by (induction ks) auto

lemma takeWhile_neq_stop: "b \<notin> set ks \<Longrightarrow> takeWhile (\<lambda>x. x \<noteq> b) (ks @ b # ys) = ks"
  by (induction ks) auto

lemma takeWhile_first_seen_notin:
  "b \<notin> set ks \<Longrightarrow>
     set (takeWhile (\<lambda>x. x \<noteq> b) (first_seen ks xs)) = set ks \<union> set (takeWhile (\<lambda>x. x \<noteq> b) xs)"
proof (induction ks xs rule: first_seen.induct)
  case (1 ks)
  then show ?case by (simp add: takeWhile_neq_all)
next
  case (2 ks x xs)
  show ?case
  proof (cases "x = b")
    case True
    with 2 show ?thesis
      by (simp add: takeWhile_first_seen_in takeWhile_neq_stop)
  next
    case False
    with 2 show ?thesis by auto
  qed
qed

lemma py_max_inv:
  "(py_max key best xs = best \<or> py_max key best xs \<in> set xs) \<and>
   key best \<le> key (py_max key best xs) \<and>
   (\<forall>y \<in> set xs. key y \<le> key (py_max key best xs)) \<and>
   (py_max key best xs \<noteq> best \<longrightarrow>
      key best < key (py_max key best xs) \<and>
      (\<forall>y \<in> set (takeWhile (\<lambda>y. y \<noteq> py_max key best xs) xs). key y < key (py_max key best xs)))"
proof (induction xs arbitrary: best)
  case Nil
  show ?case by simp
next
  case (Cons y ys)
  show ?case
    using Cons.IH [of "if key best < key y then y else best"]
    by (auto split: if_splits)
qed

lemma py_max_first:
  "py_max key x xs \<in> set (x # xs) \<and>
   (\<forall>y \<in> set (x # xs). key y \<le> key (py_max key x xs)) \<and>
   (\<forall>y \<in> set (takeWhile (\<lambda>y. y \<noteq> py_max key x xs) (x # xs)). key y < key (py_max key x xs))"
proof (cases "py_max key x xs = x")
  case True
  with py_max_inv [of key x xs] show ?thesis by simp
next
  case False
  with py_max_inv [of key x xs] show ?thesis by simp
qed

lemma keys_add_score:
  "map fst (add_score k rt scores) = (if k \<in> set (map fst scores) then map fst scores else map fst scores @ [k])"
proof (cases "map_of scores k")
  case None
  then have "k \<notin> set (map fst scores)" by (simp add: map_of_eq_None_iff)
  then show ?thesis
    using None by (simp add: add_score_def Let_def update_conv' update_keys)
next
  case (Some sc)
  then have "k \<in> set (map fst scores)" by (metis map_of_eq_None_iff option.distinct(1) set_map)
  then show ?thesis
    using Some by (simp add: add_score_def Let_def update_keys)
qed

lemma score_count_add_score:
  "score_count (add_score k rt scores) k' = score_count scores k' + (if k' = k then 1 else 0)"
  by (cases "map_of scores k") (simp_all add: add_score_def score_count_def Let_def update_conv')

lemma keys_count_methods:
  "map fst (count_methods ps scores) = first_seen (map fst scores) (map method_used ps)"
proof (induction ps arbitrary: scores)
  case Nil
  show ?case by simp
next
  case (Cons p ps)
  show ?case
    by (simp add: Cons.IH keys_add_score del: set_map)
qed

lemma score_count_count_methods:
  "score_count (count_methods ps scores) m = score_count scores m + method_count m ps"
proof (induction ps arbitrary: scores)
  case Nil
  show ?case by (simp add: method_count_def)
next
  case (Cons p ps)
  show ?case
    by (simp add: Cons.IH score_count_add_score method_count_def)
qed

lemma keys_average_times: "map fst (average_times scores) = map fst scores"
  by (induction scores) (auto simp: average_times_def)

lemma score_count_average_times: "score_count (average_times scores) k = score_count scores k"
  by (induction scores) (auto simp: average_times_def score_count_def)

lemma score_count_Nil: "score_count [] m = 0"
  by (simp add: score_count_def)

lemma score_count_scores:
  "score_count (average_times (count_methods ps [])) m = method_count m ps"
  by (simp add: score_count_average_times score_count_count_methods score_count_Nil)

lemma keys_scores:
  "map fst (average_times (count_methods ps [])) = first_seen [] (map method_used ps)"
  by (simp add: keys_average_times keys_count_methods)

lemma method_count_0: "m \<notin> method_used ` set ps \<Longrightarrow> method_count m ps = 0"
  by (auto simp: method_count_def filter_empty_conv)

lemma py_max_selected:
  assumes keys: "first_seen [] (map method_used ps) = m # ms"
  shows "selected_method ps (py_max (\<lambda>k. method_count k ps) m ms)"
proof -
  let ?b = "py_max (\<lambda>k. method_count k ps) m ms"
  note pm = py_max_first [of "\<lambda>k. method_count k ps" m ms]
  have set_keys: "set (m # ms) = method_used ` set ps"
    using set_first_seen [of "[]" "map method_used ps"] keys by simp
  have in_ps: "?b \<in> method_used ` set ps"
    using pm set_keys by blast
  have max: "method_count k ps \<le> method_count ?b ps" for k
  proof (cases "k \<in> method_used ` set ps")
    case True
    then show ?thesis using pm set_keys by blast
  next
    case False
    then show ?thesis by (simp add: method_count_0)
  qed
  have "set (takeWhile (\<lambda>y. y \<noteq> ?b) (m # ms)) = set (takeWhile (\<lambda>y. y \<noteq> ?b) (map method_used ps))"
    using takeWhile_first_seen_notin [of ?b "[]" "map method_used ps"] keys by simp
  also have "\<dots> = method_used ` set (takeWhile (\<lambda>p. method_used p \<noteq> ?b) ps)"
    by (simp add: takeWhile_map comp_def)
  finally have "\<forall>k \<in> method_used ` set (takeWhile (\<lambda>p. method_used p \<noteq> ?b) ps).
      method_count k ps < method_count ?b ps"
    using pm by blast
  with in_ps max show ?thesis
    unfolding selected_method_def by blast
qed

lemma suggest_method_selected:
  assumes ne: "successful_of_type s q \<noteq> []"
  shows "\<exists>b. selected_method (successful_of_type s q) b \<and>
     suggest_method s q =
       (if real (method_count b (successful_of_type s q)) / real (length (successful_of_type s q)) > 0.6
        then Some b else None)"
proof -
  let ?sim = "successful_of_type s q"
  have pne: "patterns s \<noteq> []"
    using ne by (auto simp: successful_of_type_def)
  have "set (first_seen [] (map method_used ?sim)) \<noteq> {}"
    using ne by (simp add: set_first_seen)
  then obtain m ms where keys: "first_seen [] (map method_used ?sim) = m # ms"
    by (cases "first_seen [] (map method_used ?sim)") auto
  have cnt: "score_count (average_times (count_methods ?sim [])) = (\<lambda>k. method_count k ?sim)"
    by (rule ext) (rule score_count_scores)
  have "suggest_method s q =
       (if real (method_count (py_max (\<lambda>k. method_count k ?sim) m ms) ?sim) / real (length ?sim) > 0.6
        then Some (py_max (\<lambda>k. method_count k ?sim) m ms) else None)"
    using pne ne keys
    by (simp add: suggest_method_def successful_of_type_def [symmetric] Let_def keys_scores cnt)
  with py_max_selected [OF keys] show ?thesis by blast
qed

lemma first_of_two:
  "x \<in> set xs \<Longrightarrow> y \<in> set xs \<Longrightarrow> x \<noteq> y \<Longrightarrow>
     x \<in> set (takeWhile (\<lambda>z. z \<noteq> y) xs) \<or> y \<in> set (takeWhile (\<lambda>z. z \<noteq> x) xs)"
proof (induction xs)
  case Nil
  then show ?case by simp
next
  case (Cons a xs)
  show ?case
  proof (cases "a = x")
    case True
    with Cons.prems(3) show ?thesis by simp
  next
    case ax: False
    show ?thesis
    proof (cases "a = y")
      case True
      with Cons.prems(3) show ?thesis by simp
    next
      case False
      with ax Cons.prems have "x \<in> set xs" "y \<in> set xs" by simp_all
      from Cons.IH [OF this Cons.prems(3)] ax False show ?thesis by simp
    qed
  qed
qed

lemma gated_choice:
  assumes b: "sel b" and uniq: "\<And>b'. sel b' \<Longrightarrow> b' = b" and r: "r = (if P b then Some b else None)"
  shows "(r = Some m \<longleftrightarrow> sel m \<and> P m) \<and> (r = None \<longleftrightarrow> \<not> (\<exists>b. sel b \<and> P b))"
proof (cases "P b")
  case True
  then have "r = Some b" using r by simp
  with b True uniq show ?thesis by blast
next
  case False
  then have "r = None" using r by simp
  with b False uniq show ?thesis by blast
qed

lemma selected_method_unique:
  assumes "selected_method ps b" and "selected_method ps b'"
  shows "b = b'"
proof (rule ccontr)
  assume neq: "b \<noteq> b'"
  from assms obtain p p' where p: "p \<in> set ps" "method_used p = b" and p': "p' \<in> set ps" "method_used p' = b'"
    unfolding selected_method_def by auto
  have le: "method_count b ps \<le> method_count b' ps" "method_count b' ps \<le> method_count b ps"
    using assms unfolding selected_method_def by auto
  show False
  proof (cases "b' \<in> method_used ` set (takeWhile (\<lambda>p. method_used p \<noteq> b) ps)")
    case True
    with assms(1) have "method_count b' ps < method_count b ps"
      unfolding selected_method_def by blast
    with le show False by simp
  next
    case False
    have "b \<in> set (map method_used ps)" "b' \<in> set (map method_used ps)"
      using p p' by auto
    from first_of_two [OF this neq] False
    have "b \<in> method_used ` set (takeWhile (\<lambda>p. method_used p \<noteq> b') ps)"
      by (simp add: takeWhile_map comp_def)
    with assms(2) have "method_count b ps < method_count b' ps"
      unfolding selected_method_def by blast
    with le show False by simp
  qed
qed

text \<open>
  C1. \<^verbatim>\<open>suggest_method\<close> returns a method \<open>m\<close> exactly when \<open>m\<close> is the method
  selected among the successful records of the query's type (the highest count, the
  first met among equals) and its count divided by the number of those records is
  strictly greater than 0.6; it returns nothing exactly when no method is selected with
  such a share. The division and the comparison are taken in exact arithmetic.
\<close>

theorem suggest_method_gate:
  "(suggest_method s q = Some m \<longleftrightarrow>
      selected_method (successful_of_type s q) m \<and>
      real (method_count m (successful_of_type s q)) / real (length (successful_of_type s q)) > 0.6) \<and>
   (suggest_method s q = None \<longleftrightarrow>
      \<not> (\<exists>b. selected_method (successful_of_type s q) b \<and>
        real (method_count b (successful_of_type s q)) / real (length (successful_of_type s q)) > 0.6))"
proof (cases "successful_of_type s q = []")
  case True
  then have "suggest_method s q = None"
    by (simp add: suggest_method_def successful_of_type_def Let_def)
  moreover have "\<not> selected_method (successful_of_type s q) b" for b
    using True by (simp add: selected_method_def)
  ultimately show ?thesis by simp
next
  case False
  from suggest_method_selected [OF False] obtain b where
    sel: "selected_method (successful_of_type s q) b" and
    res: "suggest_method s q =
       (if real (method_count b (successful_of_type s q)) / real (length (successful_of_type s q)) > 0.6
        then Some b else None)" by blast
  have uniq: "b' = b" if "selected_method (successful_of_type s q) b'" for b'
    using that sel by (rule selected_method_unique)
  show ?thesis
    by (rule gated_choice [where sel = "selected_method (successful_of_type s q)"
          and P = "\<lambda>b. real (method_count b (successful_of_type s q)) / real (length (successful_of_type s q)) > 0.6",
          OF sel uniq res])
qed

lemma classify_code: "classify_query ''code'' = ''technical_implementation''"
  by (simp add: classify_query_def lower_def lower_char_def)

lemma successful_log_2_of_3:
  "successful_of_type log_2_of_3 ''code'' = [tech ''B'', tech ''A'', tech ''A'']"
  by (simp add: successful_of_type_def log_2_of_3_def fresh_def classify_code tech_def)

lemma successful_log_3_of_5:
  "successful_of_type log_3_of_5 ''code'' = [tech ''A'', tech ''B'', tech ''A'', tech ''B'', tech ''A'']"
  by (simp add: successful_of_type_def log_3_of_5_def fresh_def classify_code tech_def)

lemma scores_2_of_3:
  "average_times (count_methods [tech ''B'', tech ''A'', tech ''A''] []) =
     [(''B'', \<lparr>count = 1, avg_time = 1\<rparr>), (''A'', \<lparr>count = 2, avg_time = 1\<rparr>)]"
  by (simp add: average_times_def add_score_def tech_def)

lemma scores_3_of_5:
  "average_times (count_methods [tech ''A'', tech ''B'', tech ''A'', tech ''B'', tech ''A''] []) =
     [(''A'', \<lparr>count = 3, avg_time = 1\<rparr>), (''B'', \<lparr>count = 2, avg_time = 1\<rparr>)]"
  by (simp add: average_times_def add_score_def tech_def)

lemma suggest_2_of_3: "suggest_method log_2_of_3 ''code'' = Some ''A''"
proof -
  have ne: "patterns log_2_of_3 \<noteq> []" by (simp add: log_2_of_3_def)
  show ?thesis
    unfolding suggest_method_def Let_def successful_of_type_def [symmetric]
      successful_log_2_of_3 scores_2_of_3
    using ne by (simp add: score_count_def)
qed

lemma suggest_3_of_5: "suggest_method log_3_of_5 ''code'' = None"
proof -
  have ne: "patterns log_3_of_5 \<noteq> []" by (simp add: log_3_of_5_def)
  show ?thesis
    unfolding suggest_method_def Let_def successful_of_type_def [symmetric]
      successful_log_3_of_5 scores_3_of_5
    using ne by (simp add: score_count_def)
qed

theorem suggest_method_gate_witness:
  "suggest_method log_2_of_3 ''code'' = Some ''A'' \<and>
   selected_method (successful_of_type log_2_of_3 ''code'') ''A'' \<and>
   suggest_method log_3_of_5 ''code'' = None \<and>
   \<not> (\<exists>b. selected_method (successful_of_type log_3_of_5 ''code'') b \<and>
          real (method_count b (successful_of_type log_3_of_5 ''code''))
            / real (length (successful_of_type log_3_of_5 ''code'')) > 0.6)"
  using suggest_method_gate [of log_2_of_3 "''code''" "''A''"]
    suggest_method_gate [of log_3_of_5 "''code''" "''A''"]
    suggest_2_of_3 suggest_3_of_5
  by blast

section \<open>Cache store: proofs\<close>

text \<open>Every operation keeps the two stores in agreement.\<close>

lemma coherent_fresh: "coherent fresh"
  by (simp add: coherent_def fresh_def)

lemma coherent_empty_cache: "cache s = Map.empty \<Longrightarrow> coherent s"
  by (simp add: coherent_def)

lemma coherent_get_cached_result:
  "coherent s \<Longrightarrow> coherent (snd (get_cached_result md5 now s q))"
  by (auto simp add: coherent_def get_cached_result_def check_file_cache_def Let_def
      split: option.splits)

lemma coherent_cache_result: "coherent s \<Longrightarrow> coherent (cache_result md5 now s q r)"
  by (auto simp add: coherent_def cache_result_def Let_def update_conv')

lemma map_of_cleanup_loop:
  "map_of (fst (cleanup_loop now h files dir cleaned)) k = Some d \<Longrightarrow> map_of dir k = Some d"
proof (induction files arbitrary: dir cleaned)
  case Nil
  then show ?case by simp
next
  case (Cons x files)
  obtain f e where x: "x = (f, e)" by (cases x)
  show ?case
  proof (cases "(now - cached_timestamp e) / 3600 > of_int h")
    case True
    with Cons.prems x have "map_of (fst (cleanup_loop now h files (AList.delete f dir) (cleaned + 1))) k = Some d"
      by (simp add: Let_def)
    then have "map_of (AList.delete f dir) k = Some d" by (rule Cons.IH)
    then show ?thesis by (simp add: delete_conv' split: if_splits)
  next
    case False
    with Cons.prems x have "map_of (fst (cleanup_loop now h files dir cleaned)) k = Some d"
      by (simp add: Let_def)
    then show ?thesis by (rule Cons.IH)
  qed
qed

lemma coherent_cleanup_volatile:
  assumes "coherent s"
  shows "coherent (snd (cleanup_volatile now s h))"
proof -
  obtain dir cleaned where l: "cleanup_loop now h (cache_dir s) (cache_dir s) 0 = (dir, cleaned)"
    by (cases "cleanup_loop now h (cache_dir s) (cache_dir s) 0")
  have "map_of dir k = Some d \<Longrightarrow> map_of (cache_dir s) k = Some d" for k d
    using map_of_cleanup_loop [of now h "cache_dir s" "cache_dir s" 0 k d] l by simp
  with assms show ?thesis
    unfolding coherent_def cleanup_volatile_def l by simp blast
qed

lemma cache_remember_query:
  "cache (remember_query now_iso s q m ok rt cites) = cache s \<and>
   cache_dir (remember_query now_iso s q m ok rt cites) = cache_dir s"
  by (simp add: remember_query_def Let_def save_stats_def save_patterns_def learn_from_pattern_def)

lemma coherent_step: "coherent s \<Longrightarrow> coherent (step md5 s c)"
proof (cases c)
  case (Remember now_iso q m ok rt cites)
  assume "coherent s"
  then show ?thesis
    unfolding Remember step.simps coherent_def
    using cache_remember_query [of now_iso s q m ok rt cites] by simp
qed (simp_all add: coherent_get_cached_result coherent_cache_result coherent_cleanup_volatile)

lemma coherent_run: "coherent s \<Longrightarrow> coherent (run md5 s cs)"
  by (induction cs arbitrary: s) (simp_all add: coherent_step)

text \<open>A stored result stays in place until the same fingerprint is written again.\<close>

lemma holds_result_frame:
  assumes h: "holds_result k r t s" and c: "cache s' k = cache s k"
    and d: "\<And>d. map_of (cache_dir s') k = Some d \<Longrightarrow> map_of (cache_dir s) k = Some d"
  shows "holds_result k r t s'"
proof -
  from h obtain e where e: "cache s k = Some e" "cached_result e = r" "cached_timestamp e = t"
    unfolding holds_result_def by blast
  from h have f: "cached_result x = r \<and> cached_timestamp x = t" if "map_of (cache_dir s) k = Some x" for x
    using that unfolding holds_result_def by blast
  have 1: "\<exists>e. cache s' k = Some e \<and> cached_result e = r \<and> cached_timestamp e = t"
    using e c by simp
  have 2: "\<forall>x. map_of (cache_dir s') k = Some x \<longrightarrow> cached_result x = r \<and> cached_timestamp x = t"
    using d f by blast
  from 1 2 show ?thesis unfolding holds_result_def by (rule conjI)
qed

lemma holds_result_cache_result: "holds_result (md5 q) r now (cache_result md5 now s q r)"
  by (simp add: holds_result_def cache_result_def Let_def update_conv')

lemma get_cached_result_at:
  "cache (snd (get_cached_result md5 now s q)) k = cache s k \<or>
   (\<exists>c. cache s k = Some c \<and>
        cache (snd (get_cached_result md5 now s q)) k = Some (c\<lparr>cached_hits := cached_hits c + 1\<rparr>)) \<or>
   (\<exists>d. map_of (cache_dir s) k = Some d \<and> (\<forall>c. cache s k = Some c \<longrightarrow> \<not> now - cached_timestamp c < 3600) \<and>
        now - cached_timestamp d < 3600 \<and> cache (snd (get_cached_result md5 now s q)) k = Some d)"
  by (auto simp add: get_cached_result_def check_file_cache_def Let_def split: option.splits)

lemma cache_dir_get_cached_result:
  "cache_dir (snd (get_cached_result md5 now s q)) = cache_dir s"
  by (simp add: get_cached_result_def check_file_cache_def Let_def split: option.splits)

lemma holds_result_get_cached_result:
  assumes h: "holds_result k r t s"
  shows "holds_result k r t (snd (get_cached_result md5 now s q))"
proof -
  let ?s' = "snd (get_cached_result md5 now s q)"
  from h obtain e where e: "cache s k = Some e" "cached_result e = r" "cached_timestamp e = t"
    unfolding holds_result_def by blast
  from h have f: "cached_result x = r \<and> cached_timestamp x = t" if "map_of (cache_dir s) k = Some x" for x
    using that unfolding holds_result_def by blast
  have dir: "cache_dir ?s' = cache_dir s" by (rule cache_dir_get_cached_result)
  have mem: "\<exists>c. cache ?s' k = Some c \<and> cached_result c = r \<and> cached_timestamp c = t"
    using get_cached_result_at [of md5 now s q k]
  proof (elim disjE exE conjE)
    assume "cache ?s' k = cache s k"
    with e show ?thesis by simp
  next
    fix c assume "cache s k = Some c" "cache ?s' k = Some (c\<lparr>cached_hits := cached_hits c + 1\<rparr>)"
    with e show ?thesis by simp
  next
    fix d assume d: "map_of (cache_dir s) k = Some d" "now - cached_timestamp d < 3600"
      "cache ?s' k = Some d"
    with f [of d] show ?thesis by simp
  qed
  have disk: "\<forall>x. map_of (cache_dir ?s') k = Some x \<longrightarrow> cached_result x = r \<and> cached_timestamp x = t"
    unfolding dir using f by blast
  from mem disk show ?thesis unfolding holds_result_def by (rule conjI)
qed

lemma holds_result_step:
  assumes "holds_result k r t s" and "\<not> caches_under md5 k c"
  shows "holds_result k r t (step md5 s c)"
proof (cases c)
  case (Remember now_iso q m ok rt cites)
  have c: "cache (step md5 s c) k = cache s k" and d: "cache_dir (step md5 s c) = cache_dir s"
    unfolding Remember step.simps using cache_remember_query [of now_iso s q m ok rt cites] by simp_all
  show ?thesis
    by (rule holds_result_frame [OF assms(1) c]) (simp add: d)
next
  case (Suggest q)
  with assms(1) show ?thesis by simp
next
  case (GetCachedResult now q)
  with assms(1) show ?thesis by (simp add: holds_result_get_cached_result)
next
  case (CacheResult now q r')
  with assms(2) have ne: "md5 q \<noteq> k" by simp
  have c: "cache (step md5 s c) k = cache s k"
    and d: "map_of (cache_dir (step md5 s c)) k = map_of (cache_dir s) k"
    unfolding CacheResult step.simps using ne by (simp_all add: cache_result_def Let_def update_conv')
  show ?thesis
    by (rule holds_result_frame [OF assms(1) c]) (simp add: d)
next
  case GetInsights
  with assms(1) show ?thesis by simp
next
  case (Cleanup now h)
  obtain dir cleaned where l: "cleanup_loop now h (cache_dir s) (cache_dir s) 0 = (dir, cleaned)"
    by (cases "cleanup_loop now h (cache_dir s) (cache_dir s) 0")
  have sub: "map_of dir k = Some d \<Longrightarrow> map_of (cache_dir s) k = Some d" for d
    using map_of_cleanup_loop [of now h "cache_dir s" "cache_dir s" 0 k d] l by simp
  have c: "cache (step md5 s c) k = cache s k" and d: "cache_dir (step md5 s c) = dir"
    unfolding Cleanup step.simps by (simp_all add: cleanup_volatile_def l)
  show ?thesis
    by (rule holds_result_frame [OF assms(1) c]) (simp add: d sub)
qed

lemma holds_result_run:
  "holds_result k r t s \<Longrightarrow> \<forall>c \<in> set cs. \<not> caches_under md5 k c \<Longrightarrow> holds_result k r t (run md5 s cs)"
proof (induction cs arbitrary: s)
  case Nil
  then show ?case by simp
next
  case (Cons c cs)
  from Cons.prems have "holds_result k r t (step md5 s c)"
    by (intro holds_result_step) simp_all
  moreover from Cons.prems have "\<forall>c \<in> set cs. \<not> caches_under md5 k c" by simp
  ultimately have "holds_result k r t (run md5 (step md5 s c) cs)" by (rule Cons.IH)
  then show ?case by simp
qed

lemma holds_result_read:
  assumes h: "holds_result (md5 q) r t s" and fr: "now - t < 3600"
  shows "fst (get_cached_result md5 now s q) = Some r"
proof -
  from h obtain e where e: "cache s (md5 q) = Some e" "cached_result e = r" "cached_timestamp e = t"
    unfolding holds_result_def by blast
  with fr show ?thesis by (simp add: get_cached_result_def Let_def)
qed

text \<open>
  C3. \<^verbatim>\<open>cache_result(q, r)\<close> at time \<open>now\<close>, then any calls that store nothing under
  the fingerprint of \<open>q\<close>, then \<^verbatim>\<open>get_cached_result(q)\<close> at a time \<open>now'\<close> less than
  3600 seconds after \<open>now\<close>: the result returned is exactly \<open>r\<close>. With no call in
  between this is the immediate round trip. The cache is keyed by the fingerprint, so
  the calls to exclude are those that store under the fingerprint of \<open>q\<close>, not only those
  for the text \<open>q\<close>.
\<close>

theorem cache_result_round_trip:
  assumes "\<forall>c \<in> set cs. \<not> caches_under md5 (md5 q) c" and "now' - now < 3600"
  shows "fst (get_cached_result md5 now' (run md5 (cache_result md5 now s q r) cs) q) = Some r"
proof -
  have "holds_result (md5 q) r now (run md5 (cache_result md5 now s q r) cs)"
    using holds_result_cache_result assms(1) by (rule holds_result_run)
  then show ?thesis using assms(2) by (rule holds_result_read)
qed

theorem cache_result_round_trip_witness:
  "fst (get_cached_result id 3599
     (run id (cache_result id 0 (fresh :: nat memory) ''q'' 7)
        [GetCachedResult 10 ''q'', CacheResult 20 ''p'' 8, Remember ''t'' ''q'' ''A'' True 1 0,
         Cleanup 30 0]) ''q'') = Some 7"
proof -
  have a: "\<forall>c \<in> set [GetCachedResult 10 ''q'', CacheResult 20 ''p'' (8 :: nat),
       Remember ''t'' ''q'' ''A'' True 1 0, Cleanup 30 0]. \<not> caches_under id (id ''q'') c"
    by simp
  have b: "(3599 :: real) - 0 < 3600" by simp
  show ?thesis by (rule cache_result_round_trip [OF a b])
qed

text \<open>
  A write for a different query with the same digest in between replaces the entry: the
  read for the first query then returns the second query's result.
\<close>

theorem cache_result_collision_counterexample:
  "query_a \<noteq> query_b \<and>
   fst (get_cached_result md5_on_pair 2
     (run md5_on_pair (cache_result md5_on_pair 0 (fresh :: nat memory) query_a 1)
        [CacheResult 1 query_b 2]) query_a) = Some 2"
proof -
  have ne: "query_a \<noteq> query_b"
    by (simp add: query_a_def query_b_def)
  have fa: "md5_on_pair query_a = ''faad49866e9498fc1719f5289e7a0269''"
    and fb: "md5_on_pair query_b = ''faad49866e9498fc1719f5289e7a0269''"
    by (simp_all add: md5_on_pair_def)
  have "fst (get_cached_result md5_on_pair 2
     (cache_result md5_on_pair 1 (cache_result md5_on_pair 0 (fresh :: nat memory) query_a 1)
        query_b 2) query_a) = Some 2"
    by (simp add: get_cached_result_def cache_result_def Let_def fa fb)
  with ne show ?thesis by simp
qed

text \<open>
  C4. \<^verbatim>\<open>get_cached_result\<close> returns a result exactly when an entry under the
  query's fingerprint is fresh, that is \<open>now - timestamp < 3600\<close>, strictly: the
  in-memory entry if that is fresh, else the file's entry if that is fresh. Where the
  two stores agree, the result of every fresh entry under the fingerprint is returned
  and no stale entry's result is.
\<close>

theorem get_cached_result_ttl:
  "(fst (get_cached_result md5 now s q) = Some r \<longleftrightarrow>
     (\<exists>c. cache s (md5 q) = Some c \<and> now - cached_timestamp c < 3600 \<and> cached_result c = r) \<or>
     (\<not> (\<exists>c. cache s (md5 q) = Some c \<and> now - cached_timestamp c < 3600) \<and>
      (\<exists>c. map_of (cache_dir s) (md5 q) = Some c \<and> now - cached_timestamp c < 3600
           \<and> cached_result c = r))) \<and>
   (coherent s \<longrightarrow>
     (fst (get_cached_result md5 now s q) = Some r \<longleftrightarrow>
       (\<exists>e. (cache s (md5 q) = Some e \<or> map_of (cache_dir s) (md5 q) = Some e) \<and>
            now - cached_timestamp e < 3600 \<and> cached_result e = r)))"
proof -
  have a: "fst (get_cached_result md5 now s q) = Some r \<longleftrightarrow>
     (\<exists>c. cache s (md5 q) = Some c \<and> now - cached_timestamp c < 3600 \<and> cached_result c = r) \<or>
     (\<not> (\<exists>c. cache s (md5 q) = Some c \<and> now - cached_timestamp c < 3600) \<and>
      (\<exists>c. map_of (cache_dir s) (md5 q) = Some c \<and> now - cached_timestamp c < 3600
           \<and> cached_result c = r))"
    by (auto simp add: get_cached_result_def check_file_cache_def Let_def split: option.splits)
  have b: "fst (get_cached_result md5 now s q) = Some r \<longleftrightarrow>
       (\<exists>e. (cache s (md5 q) = Some e \<or> map_of (cache_dir s) (md5 q) = Some e) \<and>
            now - cached_timestamp e < 3600 \<and> cached_result e = r)" if coh: "coherent s"
  proof
    assume "fst (get_cached_result md5 now s q) = Some r"
    with a show "\<exists>e. (cache s (md5 q) = Some e \<or> map_of (cache_dir s) (md5 q) = Some e) \<and>
            now - cached_timestamp e < 3600 \<and> cached_result e = r"
      by blast
  next
    assume "\<exists>e. (cache s (md5 q) = Some e \<or> map_of (cache_dir s) (md5 q) = Some e) \<and>
            now - cached_timestamp e < 3600 \<and> cached_result e = r"
    then obtain e where e: "cache s (md5 q) = Some e \<or> map_of (cache_dir s) (md5 q) = Some e"
      and fr: "now - cached_timestamp e < 3600" and re: "cached_result e = r" by blast
    show "fst (get_cached_result md5 now s q) = Some r"
    proof (cases "cache s (md5 q)")
      case None
      with e fr re a show ?thesis by simp
    next
      case (Some c)
      show ?thesis
      proof (cases "map_of (cache_dir s) (md5 q) = Some e")
        case True
        with coh Some have "cached_result c = cached_result e" "cached_timestamp c = cached_timestamp e"
          unfolding coherent_def by blast+
        with Some fr re a show ?thesis by simp
      next
        case False
        with e Some have "c = e" by simp
        with Some fr re a show ?thesis by simp
      qed
    qed
  qed
  from a b show ?thesis by blast
qed

theorem get_cached_result_ttl_witness:
  "coherent (cache_result id 1399 (fresh :: nat memory) ''q'' 7) \<and>
   fst (get_cached_result id 5000 (cache_result id 1399 (fresh :: nat memory) ''q'' 7) ''q'') \<noteq> Some 7 \<and>
   fst (get_cached_result id 5000 (cache_result id 1401 (fresh :: nat memory) ''q'' 7) ''q'') = Some 7"
  using get_cached_result_ttl [of id 5000 "cache_result id 1399 (fresh :: nat memory) ''q'' 7" "''q''" 7]
    get_cached_result_ttl [of id 5000 "cache_result id 1401 (fresh :: nat memory) ''q'' 7" "''q''" 7]
  by (simp add: cache_result_def fresh_def Let_def coherent_def)

text \<open>
  C9. \<^verbatim>\<open>get_cached_result\<close> deletes nothing: the cache directory is unchanged, every
  key of the in-memory dict stays, and entries under other fingerprints are untouched.
  A fresh in-memory hit raises that entry's hit count and the global hit counter by one;
  a hydration (no in-memory entry, a fresh file) stores the file's entry in memory as it
  is, raises only the global hit counter, and leaves the file alone; a miss changes
  nothing at all.
\<close>

theorem get_cached_result_frame:
  assumes "get_cached_result md5 now s q = (res, s')"
  shows "cache_dir s' = cache_dir s \<and> dom (cache s) \<subseteq> dom (cache s') \<and>
     (\<forall>k. k \<noteq> md5 q \<longrightarrow> cache s' k = cache s k) \<and>
     (\<forall>c. cache s (md5 q) = Some c \<and> now - cached_timestamp c < 3600 \<longrightarrow>
        res = Some (cached_result c) \<and>
        cache s' (md5 q) = Some (c\<lparr>cached_hits := cached_hits c + 1\<rparr>) \<and>
        cache_hits (stats s') = cache_hits (stats s) + 1) \<and>
     (\<forall>d. cache s (md5 q) = None \<and> map_of (cache_dir s) (md5 q) = Some d \<and>
          now - cached_timestamp d < 3600 \<longrightarrow>
        res = Some (cached_result d) \<and> cache s' (md5 q) = Some d \<and>
        cache_hits (stats s') = cache_hits (stats s) + 1) \<and>
     (res = None \<longrightarrow> s' = s)"
  using assms
  by (auto simp add: get_cached_result_def check_file_cache_def Let_def
      split: option.splits if_splits)

theorem get_cached_result_frame_witness:
  "map_option cached_hits
     (cache (snd (get_cached_result id 10 (cache_result id 0 (fresh :: nat memory) ''q'' 7) ''q'')) ''q'') = Some 1 \<and>
   map_option cached_hits (cache (snd (get_cached_result id 10 restarted ''q'')) ''q'') = Some 0 \<and>
   cache_hits (stats (snd (get_cached_result id 10 restarted ''q''))) = 1 \<and>
   cache_dir (snd (get_cached_result id 10 restarted ''q'')) = cache_dir restarted \<and>
   snd (get_cached_result id 3600 restarted ''q'') = restarted"
proof -
  have m: "cache (cache_result id 0 (fresh :: nat memory) ''q'' 7) ''q'' =
      Some \<lparr>cached_query = ''q'', cached_result = 7, cached_timestamp = 0, cached_hits = 0\<rparr>"
    by (simp add: cache_result_def Let_def)
  have r1: "cache restarted ''q'' = None"
    by (simp add: restarted_def fresh_def)
  have r2: "map_of (cache_dir restarted) ''q'' =
      Some \<lparr>cached_query = ''q'', cached_result = 7, cached_timestamp = 0, cached_hits = 0\<rparr>"
    by (simp add: restarted_def)
  have r3: "cache_hits (stats restarted) = 0"
    by (simp add: restarted_def fresh_def load_stats_default_def)
  have r4: "fst (get_cached_result id 3600 restarted ''q'') = None"
    by (simp add: get_cached_result_def check_file_cache_def r1 r2)
  show ?thesis
    using get_cached_result_frame [OF surjective_pairing, of id 10 "cache_result id 0 (fresh :: nat memory) ''q'' 7" "''q''"]
      get_cached_result_frame [OF surjective_pairing, of id 10 restarted "''q''"]
      get_cached_result_frame [OF surjective_pairing, of id 3600 restarted "''q''"]
    by (simp add: m r1 r2 r3 r4)
qed

section \<open>Cleanup: proofs\<close>

lemma cleanup_loop_filter:
  "cleanup_loop now h files dir cleaned =
     (filter (\<lambda>(f, d). f \<notin> fst ` set (filter (\<lambda>(f, d). (now - cached_timestamp d) / 3600 > of_int h) files)) dir,
      cleaned + length (filter (\<lambda>(f, d). (now - cached_timestamp d) / 3600 > of_int h) files))"
proof (induction files arbitrary: dir cleaned)
  case Nil
  show ?case by simp
next
  case (Cons x files)
  obtain f d where x: "x = (f, d)" by (cases x)
  have del: "filter P (AList.delete f dir) = filter (\<lambda>(k, v). k \<noteq> f \<and> P (k, v)) dir" for P
    by (induction dir) (auto simp add: AList.delete_eq)
  show ?case
  proof (cases "(now - cached_timestamp d) / 3600 > of_int h")
    case True
    then show ?thesis
      unfolding x by (simp add: Cons.IH del)
  next
    case False
    then show ?thesis
      unfolding x by (simp add: Cons.IH)
  qed
qed

lemma distinct_fst_unique:
  "distinct (map fst xs) \<Longrightarrow> (f, d) \<in> set xs \<Longrightarrow> (f, d') \<in> set xs \<Longrightarrow> d' = d"
  by (rule eq_key_imp_eq_value)

lemma filter_old_names:
  assumes "distinct (map fst dir)"
  shows "filter (\<lambda>(f, d). f \<notin> fst ` set (filter P dir)) dir = filter (\<lambda>x. \<not> P x) dir"
proof (rule filter_cong [OF refl])
  fix x assume x: "x \<in> set dir"
  obtain f d where fd: "x = (f, d)" by (cases x)
  have "f \<in> fst ` set (filter P dir) \<longleftrightarrow> P (f, d)"
  proof
    assume "f \<in> fst ` set (filter P dir)"
    then obtain d' where d': "(f, d') \<in> set dir" "P (f, d')" by auto
    from distinct_fst_unique [OF assms _ d'(1), of d] x fd have "d' = d" by simp
    with d' show "P (f, d)" by simp
  next
    assume "P (f, d)"
    with x fd have "(f, d) \<in> set (filter P dir)" by simp
    then show "f \<in> fst ` set (filter P dir)" by force
  qed
  then show "(case x of (f, d) \<Rightarrow> f \<notin> fst ` set (filter P dir)) = (\<not> P x)"
    by (simp add: fd)
qed

lemma cleanup_volatile_eq:
  assumes "distinct (map fst (cache_dir s))"
  shows "cleanup_volatile now s h =
     (length (filter (\<lambda>(f, d). (now - cached_timestamp d) / 3600 > of_int h) (cache_dir s)),
      s\<lparr>cache_dir := filter (\<lambda>(f, d). \<not> (now - cached_timestamp d) / 3600 > of_int h) (cache_dir s)\<rparr>)"
proof -
  let ?old = "\<lambda>(f :: string, d :: 'a cached). (now - cached_timestamp d) / 3600 > of_int h"
  have eq: "(\<lambda>(f :: string, d :: 'a cached). \<not> (now - cached_timestamp d) / 3600 > of_int h) = (\<lambda>x. \<not> ?old x)"
    by (auto simp: fun_eq_iff)
  have loop: "cleanup_loop now h (cache_dir s) (cache_dir s) 0 =
      (filter (\<lambda>x. \<not> ?old x) (cache_dir s), length (filter ?old (cache_dir s)))"
    unfolding cleanup_loop_filter filter_old_names [OF assms] by simp
  show ?thesis
    unfolding cleanup_volatile_def loop eq by simp
qed

text \<open>
  C7. With distinct file names in the cache directory, \<^verbatim>\<open>cleanup_volatile\<close> removes
  exactly the files whose age in hours exceeds \<^verbatim>\<open>max_age_hours\<close>, keeps every other
  file as it is and in place, leaves the in-memory dict, the patterns and the statistics
  unchanged, and returns the number of files it removed.
\<close>

theorem cleanup_volatile_exact:
  assumes "distinct (map fst (cache_dir s))"
  shows "cache_dir (snd (cleanup_volatile now s h)) =
       filter (\<lambda>(f, d). \<not> (now - cached_timestamp d) / 3600 > of_int h) (cache_dir s) \<and>
     fst (cleanup_volatile now s h) =
       length (filter (\<lambda>(f, d). (now - cached_timestamp d) / 3600 > of_int h) (cache_dir s)) \<and>
     fst (cleanup_volatile now s h) =
       length (cache_dir s) - length (cache_dir (snd (cleanup_volatile now s h))) \<and>
     cache (snd (cleanup_volatile now s h)) = cache s \<and>
     patterns (snd (cleanup_volatile now s h)) = patterns s \<and>
     stats (snd (cleanup_volatile now s h)) = stats s"
proof -
  let ?old = "\<lambda>(f :: string, d :: 'a cached). (now - cached_timestamp d) / 3600 > of_int h"
  have eq: "(\<lambda>(f :: string, d :: 'a cached). \<not> (now - cached_timestamp d) / 3600 > of_int h) = (\<lambda>x. \<not> ?old x)"
    by (auto simp: fun_eq_iff)
  have "length (filter ?old (cache_dir s)) + length (filter (\<lambda>x. \<not> ?old x) (cache_dir s)) = length (cache_dir s)"
    by (rule sum_length_filter_compl)
  then have "length (filter ?old (cache_dir s)) =
      length (cache_dir s) - length (filter (\<lambda>(f, d). \<not> (now - cached_timestamp d) / 3600 > of_int h) (cache_dir s))"
    unfolding eq by linarith
  then show ?thesis
    unfolding cleanup_volatile_eq [OF assms] by simp
qed

theorem cleanup_volatile_exact_witness:
  "fst (cleanup_volatile 7300 two_files 1) = 1 \<and>
   map fst (cache_dir (snd (cleanup_volatile 7300 two_files 1))) = [''new''] \<and>
   fst (cleanup_volatile 7300 two_files 3) = 0"
proof -
  have d: "distinct (map fst (cache_dir two_files))"
    by (simp add: two_files_def)
  show ?thesis
    using cleanup_volatile_exact [OF d, of 7300 1] cleanup_volatile_exact [OF d, of 7300 3]
    by (simp add: two_files_def)
qed

lemma distinct_cache_dir_step:
  assumes "distinct (map fst (cache_dir s))"
  shows "distinct (map fst (cache_dir (step md5 s c)))"
proof (cases c)
  case (Remember now_iso q m ok rt cites)
  with assms show ?thesis by (simp add: cache_remember_query)
next
  case (GetCachedResult now q)
  with assms show ?thesis
    by (auto simp add: get_cached_result_def check_file_cache_def Let_def split: option.splits)
next
  case (CacheResult now q r)
  with assms show ?thesis by (simp add: cache_result_def Let_def distinct_update)
next
  case (Cleanup now h)
  with assms show ?thesis
    by (simp add: cleanup_volatile_eq [OF assms] distinct_map_filter)
qed (use assms in simp_all)

lemma distinct_cache_dir_run:
  "distinct (map fst (cache_dir s)) \<Longrightarrow> distinct (map fst (cache_dir (run md5 s cs)))"
  by (induction cs arbitrary: s) (simp_all add: distinct_cache_dir_step)

section \<open>Insight aggregator: proofs\<close>

text \<open>
  C10. On an empty pattern list \<^verbatim>\<open>get_insights\<close> returns the one-key dict with the
  message and none of the report keys; on a non-empty list it returns the seven report
  keys and no message.
\<close>

theorem get_insights_empty:
  "(patterns s = [] \<longrightarrow> get_insights s = [(''message'', Str ''No patterns learned yet'')]) \<and>
   (patterns s \<noteq> [] \<longrightarrow>
      map fst (get_insights s) =
        [''total_patterns'', ''patterns_learned'', ''cache_hit_rate'', ''query_types'',
         ''method_preferences'', ''best_combinations'', ''avg_response_time''])"
  by (simp add: get_insights_def Let_def split: prod.splits)

theorem get_insights_empty_witness:
  "get_insights (fresh :: unit memory) = [(''message'', Str ''No patterns learned yet'')] \<and>
   map fst (get_insights log_2_of_3) =
     [''total_patterns'', ''patterns_learned'', ''cache_hit_rate'', ''query_types'',
      ''method_preferences'', ''best_combinations'', ''avg_response_time'']"
proof -
  have e: "patterns (fresh :: unit memory) = []" by (simp add: fresh_def)
  have n: "patterns log_2_of_3 \<noteq> []" by (simp add: log_2_of_3_def)
  show ?thesis
    using get_insights_empty [of "fresh :: unit memory"] get_insights_empty [of log_2_of_3] e n
    by blast
qed

section \<open>Sequences of operations: proofs\<close>

lemma patterns_step:
  "patterns (step md5 s c) = patterns s @ (case c of Remember now_iso q m ok rt cites \<Rightarrow>
       [\<lparr>query = q, query_type = classify_query q, method_used = m, success = ok,
         response_time = rt, citations_count = cites, timestamp = now_iso\<rparr>] | _ \<Rightarrow> [])"
  by (cases c)
    (simp_all add: patterns_remember_query get_cached_result_def check_file_cache_def
      cache_result_def cleanup_volatile_def Let_def split: option.splits prod.splits)

lemma length_patterns_step:
  "length (patterns (step md5 s c)) = length (patterns s) + (if is_remember c then 1 else 0)"
  unfolding patterns_step by (cases c) simp_all

text \<open>
  C8. The pattern list is append-only: after any sequence of calls of the six
  operations the earlier list is a prefix of the later one, record by record and field by
  field, and the later list is longer by exactly the number of \<^verbatim>\<open>remember_query\<close>
  calls; one \<^verbatim>\<open>remember_query\<close> call appends exactly the one record built from its
  arguments.
\<close>

theorem patterns_append_only:
  "(\<exists>new. patterns (run md5 s cs) = patterns s @ new \<and> length new = length (filter is_remember cs)) \<and>
   patterns (remember_query now_iso s q m ok rt cites) =
     patterns s @ [\<lparr>query = q, query_type = classify_query q, method_used = m, success = ok,
                    response_time = rt, citations_count = cites, timestamp = now_iso\<rparr>]"
proof
  show "\<exists>new. patterns (run md5 s cs) = patterns s @ new \<and> length new = length (filter is_remember cs)"
  proof (induction cs arbitrary: s)
    case Nil
    show ?case by simp
  next
    case (Cons c cs)
    obtain one where one: "patterns (step md5 s c) = patterns s @ one"
      and len1: "length one = (if is_remember c then 1 else 0)"
      using length_patterns_step [of md5 s c] patterns_step [of md5 s c] by (cases c) auto
    from Cons.IH [of "step md5 s c"] obtain new where
      new: "patterns (run md5 (step md5 s c) cs) = patterns (step md5 s c) @ new"
      and len: "length new = length (filter is_remember cs)" by blast
    have "patterns (run md5 s (c # cs)) = patterns s @ (one @ new)"
      using one new by simp
    moreover have "length (one @ new) = length (filter is_remember (c # cs))"
      using len1 len by simp
    ultimately show ?case by blast
  qed
next
  show "patterns (remember_query now_iso s q m ok rt cites) =
     patterns s @ [\<lparr>query = q, query_type = classify_query q, method_used = m, success = ok,
                    response_time = rt, citations_count = cites, timestamp = now_iso\<rparr>]"
    by (rule patterns_remember_query)
qed

theorem patterns_append_only_witness:
  "take 3 (patterns (run id log_2_of_3
      [CacheResult 0 ''q'' (), Remember ''t'' ''q'' ''A'' False 1 0, GetCachedResult 5 ''q'',
       Cleanup 9000 1, Suggest ''code'', Remember ''t'' ''q'' ''B'' True 2 0, GetInsights]))
     = [tech ''B'', tech ''A'', tech ''A''] \<and>
   length (patterns (run id log_2_of_3
      [CacheResult 0 ''q'' (), Remember ''t'' ''q'' ''A'' False 1 0, GetCachedResult 5 ''q'',
       Cleanup 9000 1, Suggest ''code'', Remember ''t'' ''q'' ''B'' True 2 0, GetInsights])) = 5"
proof -
  let ?cs = "[CacheResult 0 ''q'' (), Remember ''t'' ''q'' ''A'' False 1 0, GetCachedResult 5 ''q'',
       Cleanup 9000 1, Suggest ''code'', Remember ''t'' ''q'' ''B'' True 2 0, GetInsights]"
  from patterns_append_only [of id log_2_of_3 ?cs] obtain new where
    n: "patterns (run id log_2_of_3 ?cs) = patterns log_2_of_3 @ new" and
    l: "length new = length (filter is_remember ?cs)" by blast
  have p: "patterns log_2_of_3 = [tech ''B'', tech ''A'', tech ''A'']"
    by (simp add: log_2_of_3_def)
  have l2: "length new = 2" using l by simp
  show ?thesis unfolding n p using l2 by simp
qed

end
